theory Spec2Isabelle
  imports Main "HOL-Library.Word"
begin

section \<open>Intrusive reference counting: \<open>RefCountedBase\<close> and \<open>IntrusiveRefCntPtr\<close>\<close>

text \<open>
  A shallow embedding of \<^verbatim>\<open>include/IRC.h\<close>.

  \<^item> A counted object lives at an address. The heap maps the address of every live
    object to its \<^verbatim>\<open>ref_cnt\<close> field; \<^verbatim>\<open>unsigned\<close> is taken as a 32-bit word, so
    \<^verbatim>\<open>++ref_cnt\<close> and \<^verbatim>\<open>--ref_cnt\<close> wrap around. An address that is not in the
    heap holds no object (never allocated, or already deleted).
  \<^item> A raw pointer \<^verbatim>\<open>T*\<close> is an optional address, \<open>None\<close> for \<^verbatim>\<open>nullptr\<close>.
  \<^item> A handle (\<^verbatim>\<open>IntrusiveRefCntPtr<T>\<close>) is a storage location holding the
    field \<^verbatim>\<open>Obj\<close>. Handles are kept in a store, because \<^verbatim>\<open>swap\<close>, the move
    constructors and \<^verbatim>\<open>operator=\<close> write to two handles, which may be the same
    one. The location \<open>Param\<close> is the by-value parameter \<^verbatim>\<open>S\<close> of
    \<^verbatim>\<open>operator=\<close>; \<open>Var n\<close> are the handles of the client program.
  \<^item> The trace records every \<^verbatim>\<open>Retain\<close>, every \<^verbatim>\<open>Release\<close> that decrements and
    every \<^verbatim>\<open>delete\<close>, most recent first. It is what an instrumented test object
    would count.
  \<^item> What C++ leaves undefined or aborts on is a fault: a failed \<^verbatim>\<open>assert\<close>, a
    member call on an address that holds no object, the use of a handle outside
    its lifetime. A fault carries the state in which it was raised.
  \<^item> \<^verbatim>\<open>assert\<close> is compiled out under \<^verbatim>\<open>NDEBUG\<close>; the flag \<open>asserts\<close> of
    \<open>Release\<close> (and of every operation that can reach it) says whether the build
    checks assertions.
  \<^item> The destructor of \<^verbatim>\<open>Derived\<close> is client code; the model records the
    \<^verbatim>\<open>delete\<close> and removes the object from the heap.
  \<^item> The template parameters \<^verbatim>\<open>T\<close>, \<^verbatim>\<open>X\<close> only change static types: the
    converting constructors are modelled on the same untyped pointers.
\<close>

subsection \<open>State\<close>

type_synonym addr = nat
type_synonym ptr = "addr option"

datatype hid = Var nat | Param

datatype event = Retained addr | Released addr | Deleted addr

datatype fault = AssertionFailed | DeadObject | BadHandle

record state =
  heap :: "addr \<rightharpoonup> 32 word"
  handles :: "hid \<rightharpoonup> ptr"
  trace :: "event list"

type_synonym outcome = "(fault \<times> state) + state"

definition then_do :: "outcome \<Rightarrow> (state \<Rightarrow> outcome) \<Rightarrow> outcome" where
  "then_do r f = (case r of Inl e \<Rightarrow> Inl e | Inr s \<Rightarrow> f s)"

subsection \<open>\<^verbatim>\<open>RefCountedBase\<close>\<close>

text \<open>\<^verbatim>\<open>RefCountedBase() : ref_cnt(0) {}\<close>: a new object at address \<open>this\<close>.\<close>

definition RefCountedBase :: "addr \<Rightarrow> state \<Rightarrow> state" where
  "RefCountedBase this s = s\<lparr>heap := (heap s)(this \<mapsto> 0)\<rparr>"

text \<open>\<^verbatim>\<open>void Retain() const { ++ref_cnt; }\<close>\<close>

definition Retain :: "addr \<Rightarrow> state \<Rightarrow> outcome" where
  "Retain this s =
     (case heap s this of
        None \<Rightarrow> Inl (DeadObject, s)
      | Some ref_cnt \<Rightarrow>
          Inr (s\<lparr>heap := (heap s)(this \<mapsto> ref_cnt + 1),
                 trace := Retained this # trace s\<rparr>))"

text \<open>
  \<^verbatim>\<open>void Release() const {
    assert (ref_cnt > 0 && "Reference count is already zero.");
    if (--ref_cnt == 0) delete static_cast<const Derived*>(this);
  }\<close>
\<close>

definition Release :: "bool \<Rightarrow> addr \<Rightarrow> state \<Rightarrow> outcome" where
  "Release asserts this s =
     (case heap s this of
        None \<Rightarrow> Inl (DeadObject, s)
      | Some ref_cnt \<Rightarrow>
          if asserts \<and> \<not> 0 < ref_cnt then Inl (AssertionFailed, s)
          else if ref_cnt - 1 = 0
            then Inr (s\<lparr>heap := (heap s)(this := None),
                        trace := Deleted this # Released this # trace s\<rparr>)
            else Inr (s\<lparr>heap := (heap s)(this \<mapsto> ref_cnt - 1),
                        trace := Released this # trace s\<rparr>))"

text \<open>\<^verbatim>\<open>IntrusiveRefCntPtrInfo<T>::retain\<close> and \<^verbatim>\<open>::release\<close>.\<close>

definition IntrusiveRefCntPtrInfo_retain :: "addr \<Rightarrow> state \<Rightarrow> outcome" where
  "IntrusiveRefCntPtrInfo_retain obj s = Retain obj s"

definition IntrusiveRefCntPtrInfo_release :: "bool \<Rightarrow> addr \<Rightarrow> state \<Rightarrow> outcome" where
  "IntrusiveRefCntPtrInfo_release asserts obj s = Release asserts obj s"

subsection \<open>\<^verbatim>\<open>IntrusiveRefCntPtr\<close>\<close>

text \<open>
  The private members: \<^verbatim>\<open>void retain() { if (Obj) IntrusiveRefCntPtrInfo<T>::retain(Obj); }\<close>
  and \<^verbatim>\<open>void release() { if (Obj) IntrusiveRefCntPtrInfo<T>::release(Obj); }\<close>.
\<close>

definition retain :: "hid \<Rightarrow> state \<Rightarrow> outcome" where
  "retain this s =
     (case handles s this of
        None \<Rightarrow> Inl (BadHandle, s)
      | Some None \<Rightarrow> Inr s
      | Some (Some obj) \<Rightarrow> IntrusiveRefCntPtrInfo_retain obj s)"

definition release :: "bool \<Rightarrow> hid \<Rightarrow> state \<Rightarrow> outcome" where
  "release asserts this s =
     (case handles s this of
        None \<Rightarrow> Inl (BadHandle, s)
      | Some None \<Rightarrow> Inr s
      | Some (Some obj) \<Rightarrow> IntrusiveRefCntPtrInfo_release asserts obj s)"

text \<open>
  A constructor runs in storage that holds no handle yet; \<open>emplace\<close> is the member
  initialiser \<^verbatim>\<open>Obj(obj)\<close> there.
\<close>

definition emplace :: "hid \<Rightarrow> ptr \<Rightarrow> state \<Rightarrow> outcome" where
  "emplace this obj s =
     (if handles s this \<noteq> None then Inl (BadHandle, s)
      else Inr (s\<lparr>handles := (handles s)(this \<mapsto> obj)\<rparr>))"

text \<open>\<^verbatim>\<open>explicit IntrusiveRefCntPtr() : Obj(nullptr) {}\<close>\<close>

definition ctor_default :: "hid \<Rightarrow> state \<Rightarrow> outcome" where
  "ctor_default this s = emplace this None s"

text \<open>\<^verbatim>\<open>IntrusiveRefCntPtr(T* obj) : Obj(obj) { retain(); }\<close>\<close>

definition ctor_raw :: "hid \<Rightarrow> ptr \<Rightarrow> state \<Rightarrow> outcome" where
  "ctor_raw this obj s = then_do (emplace this obj s) (retain this)"

text \<open>\<^verbatim>\<open>T* get() const { return Obj; }\<close>; \<open>None\<close> when \<open>this\<close> is no live handle.\<close>

definition get :: "hid \<Rightarrow> state \<Rightarrow> ptr option" where
  "get this s = handles s this"

text \<open>\<^verbatim>\<open>operator bool() const { return Obj; }\<close>\<close>

definition operator_bool :: "hid \<Rightarrow> state \<Rightarrow> bool option" where
  "operator_bool this s =
     (case handles s this of None \<Rightarrow> None | Some Obj \<Rightarrow> Some (Obj \<noteq> None))"

text \<open>\<^verbatim>\<open>IntrusiveRefCntPtr(const IntrusiveRefCntPtr& S) : Obj(S.Obj) { retain(); }\<close>\<close>

definition ctor_copy :: "hid \<Rightarrow> hid \<Rightarrow> state \<Rightarrow> outcome" where
  "ctor_copy this S s =
     (case handles s S of
        None \<Rightarrow> Inl (BadHandle, s)
      | Some S_Obj \<Rightarrow> then_do (emplace this S_Obj s) (retain this))"

text \<open>
  \<^verbatim>\<open>template <class X> IntrusiveRefCntPtr(const IntrusiveRefCntPtr<X>& S) : Obj(S.get()) { retain(); }\<close>
\<close>

definition ctor_copy_convert :: "hid \<Rightarrow> hid \<Rightarrow> state \<Rightarrow> outcome" where
  "ctor_copy_convert this S s =
     (case get S s of
        None \<Rightarrow> Inl (BadHandle, s)
      | Some S_Obj \<Rightarrow> then_do (emplace this S_Obj s) (retain this))"

text \<open>\<^verbatim>\<open>IntrusiveRefCntPtr(IntrusiveRefCntPtr&& S) : Obj(S.Obj) { S.Obj = nullptr; }\<close>\<close>

definition ctor_move :: "hid \<Rightarrow> hid \<Rightarrow> state \<Rightarrow> outcome" where
  "ctor_move this S s =
     (case handles s S of
        None \<Rightarrow> Inl (BadHandle, s)
      | Some S_Obj \<Rightarrow>
          then_do (emplace this S_Obj s)
            (\<lambda>s1. Inr (s1\<lparr>handles := (handles s1)(S \<mapsto> None)\<rparr>)))"

text \<open>
  \<^verbatim>\<open>template <class X> IntrusiveRefCntPtr(IntrusiveRefCntPtr<X>&& S) : Obj(S.get()) { S.Obj = 0; }\<close>
\<close>

definition ctor_move_convert :: "hid \<Rightarrow> hid \<Rightarrow> state \<Rightarrow> outcome" where
  "ctor_move_convert this S s =
     (case get S s of
        None \<Rightarrow> Inl (BadHandle, s)
      | Some S_Obj \<Rightarrow>
          then_do (emplace this S_Obj s)
            (\<lambda>s1. Inr (s1\<lparr>handles := (handles s1)(S \<mapsto> None)\<rparr>)))"

text \<open>
  \<^verbatim>\<open>~IntrusiveRefCntPtr() { release(); }\<close>; the handle's lifetime ends after the body.
\<close>

definition dtor :: "bool \<Rightarrow> hid \<Rightarrow> state \<Rightarrow> outcome" where
  "dtor asserts this s =
     then_do (release asserts this s)
       (\<lambda>s1. Inr (s1\<lparr>handles := (handles s1)(this := None)\<rparr>))"

text \<open>
  \<^verbatim>\<open>void swap(IntrusiveRefCntPtr& other) {
    T* tmp = other.Obj;
    other.Obj = Obj;
    Obj = tmp;
  }\<close>
\<close>

definition swap :: "hid \<Rightarrow> hid \<Rightarrow> state \<Rightarrow> outcome" where
  "swap this other s =
     (case handles s other of
        None \<Rightarrow> Inl (BadHandle, s)
      | Some tmp \<Rightarrow>
          (case handles s this of
             None \<Rightarrow> Inl (BadHandle, s)
           | Some Obj \<Rightarrow>
               (let s1 = s\<lparr>handles := (handles s)(other \<mapsto> Obj)\<rparr>
                in Inr (s1\<lparr>handles := (handles s1)(this \<mapsto> tmp)\<rparr>))))"

text \<open>\<^verbatim>\<open>void reset() { release(); Obj = nullptr; }\<close>\<close>

definition reset :: "bool \<Rightarrow> hid \<Rightarrow> state \<Rightarrow> outcome" where
  "reset asserts this s =
     then_do (release asserts this s)
       (\<lambda>s1. Inr (s1\<lparr>handles := (handles s1)(this \<mapsto> None)\<rparr>))"

text \<open>\<^verbatim>\<open>void resetWithoutRelease() { Obj = 0; }\<close>\<close>

definition resetWithoutRelease :: "hid \<Rightarrow> state \<Rightarrow> outcome" where
  "resetWithoutRelease this s =
     (case handles s this of
        None \<Rightarrow> Inl (BadHandle, s)
      | Some Obj \<Rightarrow> Inr (s\<lparr>handles := (handles s)(this \<mapsto> None)\<rparr>))"

text \<open>
  \<^verbatim>\<open>IntrusiveRefCntPtr& operator=(IntrusiveRefCntPtr S) { swap(S); return *this; }\<close>

  \<open>operator_assign\<close> is the body, run on the parameter in \<open>Param\<close>. A call
  \<^verbatim>\<open>a = b\<close> copy-constructs the parameter from \<^verbatim>\<open>b\<close>, runs the body and
  destroys the parameter (\<open>assign\<close>); \<^verbatim>\<open>a = std::move(b)\<close> move-constructs it
  (\<open>assign_move\<close>).
\<close>

definition operator_assign :: "hid \<Rightarrow> state \<Rightarrow> outcome" where
  "operator_assign this s = swap this Param s"

definition assign :: "bool \<Rightarrow> hid \<Rightarrow> hid \<Rightarrow> state \<Rightarrow> outcome" where
  "assign asserts this rhs s =
     then_do (then_do (ctor_copy Param rhs s) (operator_assign this)) (dtor asserts Param)"

definition assign_move :: "bool \<Rightarrow> hid \<Rightarrow> hid \<Rightarrow> state \<Rightarrow> outcome" where
  "assign_move asserts this rhs s =
     then_do (then_do (ctor_move Param rhs s) (operator_assign this)) (dtor asserts Param)"

subsection \<open>Observations\<close>

text \<open>
  How often the object at \<open>p\<close> has been deleted, whether it has ever been retained,
  and which live handles of a handle store reference it.
\<close>

definition destroyed :: "state \<Rightarrow> addr \<Rightarrow> nat" where
  "destroyed s p = count_list (trace s) (Deleted p)"

definition acquired :: "state \<Rightarrow> addr \<Rightarrow> bool" where
  "acquired s p = (Retained p \<in> set (trace s))"

definition owners :: "(hid \<rightharpoonup> ptr) \<Rightarrow> addr \<Rightarrow> hid set" where
  "owners m p = {h. m h = Some (Some p)}"

text \<open>
  The fault an outcome stopped with, if any, and the state it stopped or returned in.
\<close>

definition fault_of :: "outcome \<Rightarrow> fault option" where
  "fault_of r = (case r of Inl (f, s) \<Rightarrow> Some f | Inr s \<Rightarrow> None)"

definition state_of :: "outcome \<Rightarrow> state" where
  "state_of r = (case r of Inl (f, s) \<Rightarrow> s | Inr s \<Rightarrow> s)"

subsection \<open>Client programs\<close>

text \<open>A client program is a sequence of operations on handles.\<close>

datatype handle_op =
    Construct hid
  | ConstructRaw hid ptr
  | Copy hid hid
  | CopyConvert hid hid
  | Move hid hid
  | MoveConvert hid hid
  | Assign hid hid
  | AssignMove hid hid
  | Swap hid hid
  | Reset hid
  | ResetWithoutRelease hid
  | Destroy hid

fun exec :: "bool \<Rightarrow> handle_op \<Rightarrow> state \<Rightarrow> outcome" where
  "exec asserts (Construct h) s = ctor_default h s"
| "exec asserts (ConstructRaw h obj) s = ctor_raw h obj s"
| "exec asserts (Copy h S) s = ctor_copy h S s"
| "exec asserts (CopyConvert h S) s = ctor_copy_convert h S s"
| "exec asserts (Move h S) s = ctor_move h S s"
| "exec asserts (MoveConvert h S) s = ctor_move_convert h S s"
| "exec asserts (Assign h rhs) s = assign asserts h rhs s"
| "exec asserts (AssignMove h rhs) s = assign_move asserts h rhs s"
| "exec asserts (Swap h other) s = swap h other s"
| "exec asserts (Reset h) s = reset asserts h s"
| "exec asserts (ResetWithoutRelease h) s = resetWithoutRelease h s"
| "exec asserts (Destroy h) s = dtor asserts h s"

fun run :: "bool \<Rightarrow> handle_op list \<Rightarrow> state \<Rightarrow> outcome" where
  "run asserts [] s = Inr s"
| "run asserts (c # cs) s = then_do (exec asserts c s) (run asserts cs)"

text \<open>
  The operations that acquire and release through handles only, on the single object
  at \<open>p\<close>: every raw pointer handed to a constructor is null or \<open>p\<close>, and the
  escape hatch \<^verbatim>\<open>resetWithoutRelease\<close> is not used.
\<close>

fun through_handles :: "addr \<Rightarrow> handle_op \<Rightarrow> bool" where
  "through_handles p (ConstructRaw h obj) = (obj = None \<or> obj = Some p)"
| "through_handles p (ResetWithoutRelease h) = False"
| "through_handles p c = True"

text \<open>The operations whose code reaches \<^verbatim>\<open>release()\<close>.\<close>

fun releases :: "handle_op \<Rightarrow> bool" where
  "releases (Destroy h) = True"
| "releases (Reset h) = True"
| "releases (Assign h rhs) = True"
| "releases (AssignMove h rhs) = True"
| "releases c = False"

text \<open>The construction of a handle from the raw pointer to the object at \<open>p\<close>.\<close>

fun from_raw :: "addr \<Rightarrow> handle_op \<Rightarrow> bool" where
  "from_raw p (ConstructRaw h obj) = (obj = Some p)"
| "from_raw p c = False"

text \<open>
  Before every operation of the program, fewer than \<open>2^32 - 1\<close> handles reference
  \<open>p\<close>: the counter can take one more reference.
\<close>

fun within_capacity :: "bool \<Rightarrow> addr \<Rightarrow> handle_op list \<Rightarrow> state \<Rightarrow> bool" where
  "within_capacity asserts p [] s = True"
| "within_capacity asserts p (c # cs) s =
     (card (owners (handles s) p) < 2 ^ 32 - 1 \<and>
      (case exec asserts c s of
         Inl e \<Rightarrow> True
       | Inr s1 \<Rightarrow> within_capacity asserts p cs s1))"

subsection \<open>Concrete states\<close>

text \<open>No object and no handle.\<close>

definition empty_state :: state where
  "empty_state = \<lparr>heap = Map.empty, handles = Map.empty, trace = []\<rparr>"

text \<open>A newly constructed object at \<open>p\<close>, not yet referenced by any handle.\<close>

definition start :: "addr \<Rightarrow> state" where
  "start p = RefCountedBase p empty_state"

text \<open>
  One object at \<open>p\<close> whose counter is \<open>c\<close>, a handle \<open>Var 0\<close> that references it
  and a null handle \<open>Var 1\<close>.
\<close>

definition one_object :: "addr \<Rightarrow> 32 word \<Rightarrow> state" where
  "one_object p c =
     \<lparr>heap = [p \<mapsto> c], handles = [Var 0 \<mapsto> Some p, Var 1 \<mapsto> None], trace = []\<rparr>"

text \<open>
  A program that constructs the handle \<open>Var 0\<close> from the raw pointer to the object at
  \<open>p\<close> and then copies it into the handles \<open>Var 1\<close>, ..., \<open>Var n\<close>; and the state
  it reaches from \<open>start p\<close>.
\<close>

definition many_copies :: "addr \<Rightarrow> nat \<Rightarrow> handle_op list" where
  "many_copies p n =
     ConstructRaw (Var 0) (Some p) # map (\<lambda>i. Copy (Var (Suc i)) (Var 0)) [0..<n]"

definition copied :: "addr \<Rightarrow> nat \<Rightarrow> state" where
  "copied p n =
     \<lparr>heap = [p \<mapsto> of_nat (Suc n)],
      handles = (\<lambda>h. case h of Var i \<Rightarrow> if i \<le> n then Some (Some p) else None | Param \<Rightarrow> None),
      trace = replicate (Suc n) (Retained p)\<rparr>"

subsection \<open>The counting invariant\<close>

text \<open>
  What holds between the operations of a program that works on the single object at
  \<open>p\<close> through handles: the handle store is finite and references nothing but
  \<open>p\<close>; while the object is alive its counter is the number of handles that
  reference it, it has not been deleted, and it has been retained if and only if a
  handle references it; once it is gone, no handle references it and it has been
  retained and deleted once.
\<close>

definition refers_only :: "addr \<Rightarrow> (hid \<rightharpoonup> ptr) \<Rightarrow> bool" where
  "refers_only p m \<longleftrightarrow> (\<forall>h q. m h = Some (Some q) \<longrightarrow> q = p)"

definition consistent :: "addr \<Rightarrow> state \<Rightarrow> bool" where
  "consistent p s \<longleftrightarrow>
     finite (dom (handles s)) \<and>
     refers_only p (handles s) \<and>
     (case heap s p of
        Some c \<Rightarrow>
          unat c = card (owners (handles s) p) \<and> destroyed s p = 0 \<and>
          (acquired s p \<longleftrightarrow> owners (handles s) p \<noteq> {})
      | None \<Rightarrow>
          owners (handles s) p = {} \<and> destroyed s p = 1 \<and> acquired s p)"

text \<open>
  What one operation, started in state \<open>s\<close>, keeps: it stops on no fault but the
  use of a handle outside its lifetime; when it returns, the invariant holds again, an
  object that was retained stays so, an object that was gone stays gone, and an object
  that is gone now was gone before or was referenced by a handle.
\<close>

definition preserved :: "addr \<Rightarrow> state \<Rightarrow> outcome \<Rightarrow> bool" where
  "preserved p s r \<longleftrightarrow>
     (case r of
        Inl (f, s2) \<Rightarrow> f = BadHandle
      | Inr s1 \<Rightarrow>
          consistent p s1 \<and>
          (acquired s p \<longrightarrow> acquired s1 p) \<and>
          (heap s p = None \<longrightarrow> heap s1 p = None) \<and>
          (heap s1 p = None \<longrightarrow> heap s p = None \<or> owners (handles s) p \<noteq> {}))"

section \<open>Properties\<close>

subsection \<open>Auxiliary facts\<close>

lemma then_do_Inr [simp]: "then_do (Inr s) f = f s"
  by (simp add: then_do_def)

lemma then_do_Inl [simp]: "then_do (Inl e) f = Inl e"
  by (simp add: then_do_def)

lemmas handle_defs =
  ctor_default_def ctor_raw_def ctor_copy_def ctor_copy_convert_def ctor_move_def
  ctor_move_convert_def dtor_def swap_def reset_def resetWithoutRelease_def
  operator_assign_def assign_def assign_move_def emplace_def retain_def release_def
  IntrusiveRefCntPtrInfo_retain_def IntrusiveRefCntPtrInfo_release_def get_def
  operator_bool_def

lemma unat_pred_succ: "0 < (c::32 word) \<Longrightarrow> Suc (unat c - Suc 0) = unat c"
  by (simp add: word_less_nat_alt)

lemma unat_succ_no_wrap: "(c::32 word) \<noteq> - 1 \<Longrightarrow> unat (c + 1) = Suc (unat c)"
  using unatSuc [of c] by (simp add: add.commute eq_neg_iff_add_eq_0)

lemma unat_max: "unat (- 1 :: 32 word) = 4294967295"
proof -
  have "(- 1 :: 32 word) = 4294967295" by simp
  then show ?thesis by (simp only: unat_numeral) simp
qed

lemma word_succ_pos: "(0 < (c::32 word) + 1) = (c \<noteq> - 1)"
  by (simp add: word_greater_zero_iff eq_neg_iff_add_eq_0)

lemma handles_restore:
  "handles s a = Some x \<Longrightarrow> handles s t = None \<Longrightarrow>
   s\<lparr>handles := (handles s)(a \<mapsto> x, t := None)\<rparr> = s"
  by (simp add: fun_upd_idem)

subsection \<open>The counted object\<close>

text \<open>
  Claim C2. On a live object whose counter \<open>c\<close> is positive, \<^verbatim>\<open>Release\<close> returns,
  in either build; the counter it leaves is \<open>c - 1\<close>, exactly one less, without
  wrap-around; the object is deleted (once more than before, and gone from the heap)
  if and only if \<open>c - 1 = 0\<close>; no other object and no handle is touched. On a live
  object whose counter is \<open>0\<close>, the build that checks assertions stops with the
  fault \<open>AssertionFailed\<close>, raised in the unchanged state; a fault is final
  (\<open>then_do\<close> runs nothing after it).
\<close>

theorem Release_contract:
  assumes "heap s this = Some c"
  shows "(0 < c \<longrightarrow>
            (case Release asserts this s of
               Inl e \<Rightarrow> False
             | Inr s1 \<Rightarrow>
                 heap s1 this = (if c - 1 = 0 then None else Some (c - 1)) \<and>
                 unat (c - 1) + 1 = unat c \<and>
                 destroyed s1 this = destroyed s this + (if c - 1 = 0 then 1 else 0) \<and>
                 (\<forall>q. q \<noteq> this \<longrightarrow> heap s1 q = heap s q \<and> destroyed s1 q = destroyed s q) \<and>
                 handles s1 = handles s)) \<and>
         (c = 0 \<longrightarrow> Release True this s = Inl (AssertionFailed, s))"
  using assms
  by (auto simp: Release_def unat_minus_one word_neq_0_conv destroyed_def unat_pred_succ)

theorem Release_contract_witness:
  "(case Release True 7 (one_object 7 1) of
      Inl e \<Rightarrow> False
    | Inr s1 \<Rightarrow> heap s1 7 = None \<and> destroyed s1 7 = 1 \<and> handles s1 = handles (one_object 7 1)) \<and>
   (case Release False 7 (one_object 7 2) of
      Inl e \<Rightarrow> False
    | Inr s1 \<Rightarrow> heap s1 7 = Some 1 \<and> destroyed s1 7 = 0) \<and>
   Release True 7 (one_object 7 0) = Inl (AssertionFailed, one_object 7 0)"
  using Release_contract [of "one_object 7 1" 7 1 True]
    Release_contract [of "one_object 7 2" 7 2 False]
    Release_contract [of "one_object 7 0" 7 0]
  by (simp add: one_object_def destroyed_def split: sum.splits)

subsection \<open>Single operations of the handle\<close>

text \<open>
  Claim C3, as amended. In storage that holds no handle yet, the constructor from a
  raw pointer to a live object \<open>p\<close> with counter \<open>c\<close> returns a handle that holds
  \<open>p\<close> and converts to \<open>true\<close>; it has called \<^verbatim>\<open>Retain\<close> on \<open>p\<close> once and
  nothing else (the trace grows by that one event); other objects and other handles
  are as before. If \<open>c\<close> is less than the largest counter value \<open>2^32 - 1\<close>, the
  counter is incremented by 1: its value afterwards is the value of \<open>c\<close> plus one. If
  \<open>c\<close> is \<open>2^32 - 1\<close>, the counter is \<open>0\<close> afterwards. From the null pointer the
  constructor returns a null handle, and heap and trace are unchanged: neither
  \<^verbatim>\<open>Retain\<close> nor \<^verbatim>\<open>Release\<close> was called.
\<close>

theorem ctor_raw_acquires_once:
  assumes "handles s this = None"
  shows "(heap s p = Some c \<longrightarrow>
            (case ctor_raw this (Some p) s of
               Inl e \<Rightarrow> False
             | Inr s1 \<Rightarrow>
                 get this s1 = Some (Some p) \<and> operator_bool this s1 = Some True \<and>
                 heap s1 p = Some (c + 1) \<and>
                 (c \<noteq> - 1 \<longrightarrow> unat (c + 1) = unat c + 1) \<and>
                 (c = - 1 \<longrightarrow> c + 1 = 0) \<and>
                 trace s1 = Retained p # trace s \<and>
                 (\<forall>q. q \<noteq> p \<longrightarrow> heap s1 q = heap s q) \<and>
                 (\<forall>h. h \<noteq> this \<longrightarrow> handles s1 h = handles s h))) \<and>
         (case ctor_raw this None s of
            Inl e \<Rightarrow> False
          | Inr s1 \<Rightarrow>
              get this s1 = Some None \<and> operator_bool this s1 = Some False \<and>
              heap s1 = heap s \<and> trace s1 = trace s \<and>
              (\<forall>h. h \<noteq> this \<longrightarrow> handles s1 h = handles s h))"
  using assms by (simp add: handle_defs Retain_def unat_succ_no_wrap)

theorem ctor_raw_acquires_once_witness:
  "(1 :: 32 word) \<noteq> - 1 \<and>
   (case ctor_raw (Var 2) (Some 7) (one_object 7 1) of
      Inl e \<Rightarrow> False
    | Inr s1 \<Rightarrow>
        get (Var 2) s1 = Some (Some 7) \<and> heap s1 7 = Some 2 \<and>
        unat (2 :: 32 word) = unat (1 :: 32 word) + 1 \<and> trace s1 = [Retained 7]) \<and>
   (case ctor_raw (Var 2) None (one_object 7 1) of
      Inl e \<Rightarrow> False
    | Inr s1 \<Rightarrow> get (Var 2) s1 = Some None \<and> heap s1 7 = Some 1 \<and> trace s1 = [])"
  using ctor_raw_acquires_once [of "one_object 7 1" "Var 2" 7 1]
  by (simp add: one_object_def split: sum.splits)

text \<open>
  Without the bound the counter is not incremented by 1. On the object whose counter
  is \<open>2^32 - 1 = 4294967295\<close> the constructor returns and leaves the counter at
  \<open>0\<close>; the destruction of the new handle then stops on the assertion of
  \<^verbatim>\<open>Release\<close>.
\<close>

theorem ctor_raw_wraps_counterexample:
  "heap (one_object 7 (- 1)) 7 = Some (- 1) \<and>
   unat (- 1 :: 32 word) = 4294967295 \<and>
   fault_of (ctor_raw (Var 2) (Some 7) (one_object 7 (- 1))) = None \<and>
   heap (state_of (ctor_raw (Var 2) (Some 7) (one_object 7 (- 1)))) 7 = Some 0 \<and>
   fault_of (then_do (ctor_raw (Var 2) (Some 7) (one_object 7 (- 1))) (dtor True (Var 2))) =
     Some AssertionFailed"
  by (simp add: one_object_def handle_defs Retain_def Release_def fault_of_def state_of_def
      unat_max)

text \<open>
  Claim C4, as amended. Let the live handle \<open>a\<close> reference the live object \<open>p\<close>
  with counter \<open>c\<close>, where \<open>0 < c\<close> and \<open>c\<close> is less than the largest counter
  value \<open>2^32 - 1\<close>. Then, in either build, copy construction into storage \<open>h\<close>
  that holds no handle yet returns, both handles reference \<open>p\<close> and the counter is
  \<open>c + 1\<close>, whose value is the value of \<open>c\<close> plus one; the destruction of the copy
  then returns too, and leaves the counter at \<open>c\<close>, the heap and the handle store as
  they were before the copy, and one \<^verbatim>\<open>Retain\<close> followed by one \<^verbatim>\<open>Release\<close> in
  the trace. The converting copy constructor does the same as the copy constructor.
\<close>

theorem copy_then_destroy_neutral:
  assumes "handles s a = Some (Some p)" and "heap s p = Some c" and "handles s h = None"
    and "0 < c" and "c \<noteq> - 1"
  shows "(case ctor_copy h a s of
            Inl e \<Rightarrow> False
          | Inr s1 \<Rightarrow>
              get h s1 = Some (Some p) \<and> get a s1 = Some (Some p) \<and>
              heap s1 p = Some (c + 1) \<and> unat (c + 1) = unat c + 1 \<and>
              (case dtor asserts h s1 of
                 Inl e \<Rightarrow> False
               | Inr s2 \<Rightarrow>
                   heap s2 p = Some c \<and> heap s2 = heap s \<and> handles s2 = handles s \<and>
                   trace s2 = Released p # Retained p # trace s)) \<and>
         ctor_copy_convert h a s = ctor_copy h a s"
  using assms
  by (auto simp add: handle_defs Let_def Retain_def Release_def word_succ_pos fun_upd_idem
      unat_succ_no_wrap split: option.splits sum.splits)

theorem copy_then_destroy_neutral_witness:
  "(0 :: 32 word) < 1 \<and> (1 :: 32 word) \<noteq> - 1 \<and>
   (case ctor_copy (Var 2) (Var 0) (one_object 7 1) of
      Inl e \<Rightarrow> False
    | Inr s1 \<Rightarrow>
        get (Var 2) s1 = Some (Some 7) \<and> get (Var 0) s1 = Some (Some 7) \<and>
        heap s1 7 = Some 2 \<and> unat (2 :: 32 word) = unat (1 :: 32 word) + 1 \<and>
        (case dtor True (Var 2) s1 of
           Inl e \<Rightarrow> False
         | Inr s2 \<Rightarrow> heap s2 7 = Some 1 \<and> handles s2 = handles (one_object 7 1)) \<and>
        (case dtor False (Var 2) s1 of
           Inl e \<Rightarrow> False
         | Inr s2 \<Rightarrow> heap s2 7 = Some 1 \<and> handles s2 = handles (one_object 7 1)))"
  using copy_then_destroy_neutral [of "one_object 7 1" "Var 0" 7 1 "Var 2" True]
    copy_then_destroy_neutral [of "one_object 7 1" "Var 0" 7 1 "Var 2" False]
  by (simp add: one_object_def handle_defs Retain_def Release_def)

text \<open>
  Without the two bounds the statement fails. At \<open>c = 2^32 - 1 = 4294967295\<close> the
  copy leaves the counter at \<open>0\<close>, in either build, and in the build that checks
  assertions the destruction of the copy stops on the assertion of \<^verbatim>\<open>Release\<close>.
  At \<open>c = 0\<close> the copy brings the counter to \<open>1\<close> and the destruction of the copy
  deletes the object that \<open>Var 0\<close> still references.
\<close>

theorem copy_then_destroy_counterexample:
  "unat (- 1 :: 32 word) = 4294967295 \<and>
   fault_of (ctor_copy (Var 2) (Var 0) (one_object 7 (- 1))) = None \<and>
   heap (state_of (ctor_copy (Var 2) (Var 0) (one_object 7 (- 1)))) 7 = Some 0 \<and>
   fault_of (then_do (ctor_copy (Var 2) (Var 0) (one_object 7 (- 1))) (dtor True (Var 2))) =
     Some AssertionFailed \<and>
   fault_of (then_do (ctor_copy (Var 2) (Var 0) (one_object 7 0)) (dtor False (Var 2))) = None \<and>
   heap (state_of (then_do (ctor_copy (Var 2) (Var 0) (one_object 7 0)) (dtor False (Var 2)))) 7 =
     None \<and>
   get (Var 0) (state_of (then_do (ctor_copy (Var 2) (Var 0) (one_object 7 0)) (dtor False (Var 2)))) =
     Some (Some 7)"
  by (simp add: one_object_def handle_defs Retain_def Release_def fault_of_def state_of_def
      unat_max)

text \<open>
  Claim C5. Move construction from a live handle \<open>S\<close>, into storage that holds no
  handle yet, returns; the new handle holds what \<open>S\<close> held, \<open>S\<close> is null and
  converts to \<open>false\<close>, and heap and trace are unchanged: no \<^verbatim>\<open>Retain\<close>, no
  \<^verbatim>\<open>Release\<close>, every counter as before. The converting move constructor does the
  same.
\<close>

theorem ctor_move_transfers:
  assumes "handles s S = Some obj" and "handles s this = None"
  shows "(case ctor_move this S s of
            Inl e \<Rightarrow> False
          | Inr s1 \<Rightarrow>
              get this s1 = Some obj \<and> get S s1 = Some None \<and>
              operator_bool S s1 = Some False \<and>
              heap s1 = heap s \<and> trace s1 = trace s \<and>
              (\<forall>h. h \<noteq> this \<and> h \<noteq> S \<longrightarrow> handles s1 h = handles s h)) \<and>
         ctor_move_convert this S s = ctor_move this S s"
  using assms by (auto simp add: handle_defs)

theorem ctor_move_transfers_witness:
  "(case ctor_move (Var 2) (Var 0) (one_object 7 1) of
      Inl e \<Rightarrow> False
    | Inr s1 \<Rightarrow>
        get (Var 2) s1 = Some (Some 7) \<and> get (Var 0) s1 = Some None \<and>
        operator_bool (Var 0) s1 = Some False \<and> heap s1 7 = Some 1 \<and> trace s1 = []) \<and>
   ctor_move_convert (Var 2) (Var 0) (one_object 7 1) = ctor_move (Var 2) (Var 0) (one_object 7 1)"
  using ctor_move_transfers [of "one_object 7 1" "Var 0" "Some 7" "Var 2"]
  by (simp add: one_object_def split: sum.splits)

text \<open>
  Claim C6. Let \<open>a\<close> and \<open>b\<close> be live handles (possibly the same one) and the
  storage of the parameter be free. Then \<^verbatim>\<open>a = b\<close> is: copy-construct the
  parameter from \<open>b\<close>, swap it with \<open>a\<close>, destroy it. If the copy construction
  stops with a fault, the assignment stops with that fault in that state, in which
  \<open>a\<close> holds what it held and heap and trace are unchanged. If it returns, the
  parameter holds what \<open>b\<close> holds, and the assignment is the destruction of the
  parameter in the state where the parameter holds the former content of \<open>a\<close> and
  \<open>a\<close> holds the content of \<open>b\<close>: that destruction is what releases the former
  content. When the assignment returns, \<open>a\<close> holds what \<open>b\<close> held, the parameter
  is gone and every other handle is as before.
\<close>

theorem assign_copy_and_swap:
  assumes "handles s a = Some oa" and "handles s b = Some ob" and "handles s Param = None"
  shows "assign asserts a b s =
           then_do (then_do (ctor_copy Param b s) (swap a Param)) (dtor asserts Param) \<and>
         (case ctor_copy Param b s of
            Inl (f, s2) \<Rightarrow>
              assign asserts a b s = Inl (f, s2) \<and>
              handles s2 a = Some oa \<and> heap s2 = heap s \<and> trace s2 = trace s
          | Inr s1 \<Rightarrow>
              get Param s1 = Some ob \<and>
              assign asserts a b s =
                dtor asserts Param (s1\<lparr>handles := (handles s1)(Param \<mapsto> oa, a \<mapsto> ob)\<rparr>)) \<and>
         (case assign asserts a b s of
            Inl e \<Rightarrow> True
          | Inr s3 \<Rightarrow>
              get a s3 = Some ob \<and> get Param s3 = None \<and>
              (\<forall>h. h \<noteq> a \<longrightarrow> handles s3 h = handles s h))"
  using assms
  by (auto simp add: handle_defs Let_def Retain_def Release_def split: option.splits sum.splits)

theorem assign_copy_and_swap_witness:
  "assign True (Var 1) (Var 0) (one_object 7 1) =
     then_do (then_do (ctor_copy Param (Var 0) (one_object 7 1)) (swap (Var 1) Param)) (dtor True Param) \<and>
   (case assign True (Var 1) (Var 0) (one_object 7 1) of
      Inl e \<Rightarrow> False
    | Inr s3 \<Rightarrow> get (Var 1) s3 = Some (Some 7) \<and> get (Var 0) s3 = Some (Some 7) \<and>
        get Param s3 = None \<and> heap s3 7 = Some 2 \<and> trace s3 = [Retained 7]) \<and>
   (case assign True (Var 0) (Var 1) (one_object 7 1) of
      Inl e \<Rightarrow> False
    | Inr s3 \<Rightarrow> get (Var 0) s3 = Some None \<and> heap s3 7 = None \<and>
        trace s3 = [Deleted 7, Released 7])"
  using assign_copy_and_swap [of "one_object 7 1" "Var 1" None "Var 0" "Some 7" True]
    assign_copy_and_swap [of "one_object 7 1" "Var 0" "Some 7" "Var 1" None True]
  by (simp add: one_object_def handle_defs Retain_def Release_def Let_def split: sum.splits)

text \<open>
  Claim C7. \<^verbatim>\<open>a.swap(b)\<close> on live handles returns; afterwards \<open>a\<close> holds what
  \<open>b\<close> held and \<open>b\<close> what \<open>a\<close> held, every other handle is as before, and heap
  and trace are unchanged: no \<^verbatim>\<open>Retain\<close>, no \<^verbatim>\<open>Release\<close>, both counters as
  before. \<open>a\<close> and \<open>b\<close> may be the same handle.
\<close>

theorem swap_exchanges:
  assumes "handles s a = Some oa" and "handles s b = Some ob"
  shows "case swap a b s of
           Inl e \<Rightarrow> False
         | Inr s1 \<Rightarrow>
             get a s1 = Some ob \<and> get b s1 = Some oa \<and>
             heap s1 = heap s \<and> trace s1 = trace s \<and>
             (\<forall>h. h \<noteq> a \<and> h \<noteq> b \<longrightarrow> handles s1 h = handles s h)"
  using assms by (auto simp add: handle_defs Let_def)

theorem swap_exchanges_witness:
  "case swap (Var 0) (Var 1) (one_object 7 1) of
     Inl e \<Rightarrow> False
   | Inr s1 \<Rightarrow>
       get (Var 0) s1 = Some None \<and> get (Var 1) s1 = Some (Some 7) \<and>
       heap s1 7 = Some 1 \<and> trace s1 = []"
  using swap_exchanges [of "one_object 7 1" "Var 0" "Some 7" "Var 1" None]
  by (simp add: one_object_def split: sum.splits)

text \<open>
  Claim C8. \<^verbatim>\<open>resetWithoutRelease\<close> on a live handle returns; the handle is null
  afterwards, every other handle is as before, and heap and trace are unchanged: no
  \<^verbatim>\<open>Release\<close> was called, the counter of the object it held is as before and the
  object has not been deleted.
\<close>

theorem resetWithoutRelease_keeps_counter:
  assumes "handles s this = Some obj"
  shows "case resetWithoutRelease this s of
           Inl e \<Rightarrow> False
         | Inr s1 \<Rightarrow>
             get this s1 = Some None \<and> operator_bool this s1 = Some False \<and>
             heap s1 = heap s \<and> trace s1 = trace s \<and>
             (\<forall>h. h \<noteq> this \<longrightarrow> handles s1 h = handles s h)"
  using assms by (simp add: handle_defs)

theorem resetWithoutRelease_keeps_counter_witness:
  "case resetWithoutRelease (Var 0) (one_object 7 1) of
     Inl e \<Rightarrow> False
   | Inr s1 \<Rightarrow>
       get (Var 0) s1 = Some None \<and> heap s1 7 = Some 1 \<and> destroyed s1 7 = 0 \<and> trace s1 = []"
  using resetWithoutRelease_keeps_counter [of "one_object 7 1" "Var 0" "Some 7"]
  by (simp add: one_object_def destroyed_def split: sum.splits)

text \<open>
  Claim C9, as amended. Let \<open>a\<close> be a live handle and the storage of the parameter
  be free. If \<open>a\<close> is null, \<^verbatim>\<open>a = a\<close> returns the state it was called in. If
  \<open>a\<close> references the live object \<open>p\<close> with counter \<open>c\<close>, where \<open>0 < c\<close>
  and, in a build that checks assertions, \<open>c\<close> is not \<open>2^32 - 1\<close>, then
  \<^verbatim>\<open>a = a\<close> returns with the handle store and the heap as before (so \<open>a\<close>
  references \<open>p\<close> and the counter is \<open>c\<close>), the object has not been deleted, and
  the trace has grown by one \<^verbatim>\<open>Retain\<close> followed by one \<^verbatim>\<open>Release\<close>: the
  reference of the parameter is acquired before the old one is released.
\<close>

theorem self_assign_neutral:
  assumes "handles s a = Some obj" and "handles s Param = None"
  shows "(obj = None \<longrightarrow> assign asserts a a s = Inr s) \<and>
         (obj = Some p \<and> heap s p = Some c \<and> 0 < c \<and> (asserts \<longrightarrow> c \<noteq> - 1) \<longrightarrow>
            (case assign asserts a a s of
               Inl e \<Rightarrow> False
             | Inr s1 \<Rightarrow>
                 handles s1 = handles s \<and> heap s1 = heap s \<and>
                 destroyed s1 p = destroyed s p \<and>
                 trace s1 = Released p # Retained p # trace s))"
  using assms
  by (auto simp add: handle_defs Let_def Retain_def Release_def word_succ_pos destroyed_def
      handles_restore split: option.splits sum.splits)

theorem self_assign_neutral_witness:
  "assign True (Var 1) (Var 1) (one_object 7 1) = Inr (one_object 7 1) \<and>
   (case assign True (Var 0) (Var 0) (one_object 7 1) of
      Inl e \<Rightarrow> False
    | Inr s1 \<Rightarrow>
        handles s1 = handles (one_object 7 1) \<and> heap s1 = heap (one_object 7 1) \<and>
        destroyed s1 7 = 0 \<and> trace s1 = [Released 7, Retained 7])"
  using self_assign_neutral [of "one_object 7 1" "Var 1" None True]
    self_assign_neutral [of "one_object 7 1" "Var 0" "Some 7" True 7 1]
  by (simp add: one_object_def destroyed_def handle_defs Retain_def Release_def Let_def)

text \<open>
  Without the two bounds the statement fails. At \<open>c = 2^32 - 1\<close> the copy for the
  parameter wraps the counter to \<open>0\<close> and the destruction of the parameter stops on
  the assertion. At \<open>c = 0\<close> the self-assignment deletes the object that \<open>Var 0\<close>
  still references.
\<close>

theorem self_assign_counterexample:
  "fault_of (assign True (Var 0) (Var 0) (one_object 7 (- 1))) = Some AssertionFailed \<and>
   fault_of (assign False (Var 0) (Var 0) (one_object 7 0)) = None \<and>
   heap (state_of (assign False (Var 0) (Var 0) (one_object 7 0))) 7 = None \<and>
   get (Var 0) (state_of (assign False (Var 0) (Var 0) (one_object 7 0))) = Some (Some 7)"
  by (simp add: one_object_def handle_defs Retain_def Release_def fault_of_def state_of_def
      Let_def)

lemma reset_null: "handles s this = Some None \<Longrightarrow> reset asserts this s = Inr s"
  by (simp add: handle_defs fun_upd_idem)

lemma reset_result_null: "reset asserts this s = Inr s1 \<Longrightarrow> handles s1 this = Some None"
  by (auto simp add: reset_def then_do_def split: sum.splits)

text \<open>
  Claim C10. \<^verbatim>\<open>reset\<close> twice is \<^verbatim>\<open>reset\<close> once: the same final state when the
  first call returns, the same fault in the same state when it does not. On a null
  handle \<^verbatim>\<open>reset\<close> returns the state it was called in, so it has called no
  \<^verbatim>\<open>Release\<close>.
\<close>

theorem reset_idempotent:
  "then_do (reset asserts this s) (reset asserts this) = reset asserts this s \<and>
   (handles s this = Some None \<longrightarrow> reset asserts this s = Inr s)"
proof (cases "reset asserts this s")
  case (Inl e)
  then show ?thesis by (auto simp: reset_null)
next
  case (Inr s1)
  then show ?thesis by (auto simp: reset_null dest: reset_result_null)
qed

theorem reset_idempotent_witness:
  "then_do (reset True (Var 0) (one_object 7 1)) (reset True (Var 0)) =
     reset True (Var 0) (one_object 7 1) \<and>
   reset True (Var 1) (one_object 7 1) = Inr (one_object 7 1)"
  using reset_idempotent [of True "Var 0" "one_object 7 1"]
    reset_idempotent [of True "Var 1" "one_object 7 1"]
  by (simp add: one_object_def)

subsection \<open>Handle stores and their owners\<close>

lemma owners_upd [simp]:
  "owners (m(h \<mapsto> obj)) p = (if obj = Some p then insert h (owners m p) else owners m p - {h})"
  by (auto simp: owners_def)

lemma owners_del [simp]: "owners (m(h := None)) p = owners m p - {h}"
  by (auto simp: owners_def)

lemma owners_empty [simp]: "owners Map.empty p = {}"
  by (simp add: owners_def)

lemma owners_mem: "(h \<in> owners m p) = (m h = Some (Some p))"
  by (simp add: owners_def)

lemma finite_owners: "finite (dom m) \<Longrightarrow> finite (owners m p)"
  by (rule finite_subset [of _ "dom m"]) (auto simp: owners_def)

lemma card_owners_insert:
  "finite (dom m) \<Longrightarrow> m h \<noteq> Some (Some p) \<Longrightarrow>
   card (insert h (owners m p)) = Suc (card (owners m p))"
  by (simp add: finite_owners owners_mem)

lemma card_owners_remove:
  "finite (dom m) \<Longrightarrow> m h = Some (Some p) \<Longrightarrow>
   Suc (card (owners m p - {h})) = card (owners m p)"
  by (rule card_Suc_Diff1) (simp_all add: finite_owners owners_mem)

lemma owners_remove_other: "m h \<noteq> Some (Some p) \<Longrightarrow> owners m p - {h} = owners m p"
  by (simp add: owners_mem)

lemma refers_only_upd:
  "refers_only p m \<Longrightarrow> obj = None \<or> obj = Some p \<Longrightarrow> refers_only p (m(h \<mapsto> obj))"
  by (auto simp: refers_only_def)

lemma refers_only_del: "refers_only p m \<Longrightarrow> refers_only p (m(h := None))"
  by (simp add: refers_only_def)

lemma refers_only_cases: "refers_only p m \<Longrightarrow> m h = Some obj \<Longrightarrow> obj = None \<or> obj = Some p"
  by (cases obj) (auto simp: refers_only_def)

subsection \<open>Counters\<close>

lemma unat_succ: "unat (c::32 word) < 2 ^ 32 - 1 \<Longrightarrow> unat (c + 1) = Suc (unat c)"
  using unat_add_lem [of c 1] by simp

lemma unat_pred: "unat (c::32 word) = Suc n \<Longrightarrow> unat (c - 1) = n"
  by (cases "c = 0") (simp_all add: unat_minus_one)

lemma unat_pos: "unat (c::32 word) = Suc n \<Longrightarrow> 0 < c"
  by (simp add: word_less_nat_alt)

lemma pred_zero_iff: "unat (c::32 word) = Suc n \<Longrightarrow> (c - 1 = 0) = (n = 0)"
  using unat_pred [of c n] by (metis unat_eq_zero)

subsection \<open>The counting invariant, case by case\<close>

lemma consistent_live:
  "heap s p = Some c \<Longrightarrow>
   consistent p s \<longleftrightarrow>
     finite (dom (handles s)) \<and> refers_only p (handles s) \<and>
     unat c = card (owners (handles s) p) \<and> destroyed s p = 0 \<and>
     (acquired s p \<longleftrightarrow> owners (handles s) p \<noteq> {})"
  by (simp add: consistent_def)

lemma consistent_dead:
  "heap s p = None \<Longrightarrow>
   consistent p s \<longleftrightarrow>
     finite (dom (handles s)) \<and> refers_only p (handles s) \<and>
     owners (handles s) p = {} \<and> destroyed s p = 1 \<and> acquired s p"
  by (simp add: consistent_def)

lemma consistent_owner_live:
  assumes "consistent p s" and "handles s h = Some (Some p)"
  obtains c n where "heap s p = Some c" and "unat c = Suc n"
    and "card (owners (handles s) p) = Suc n"
proof (cases "heap s p")
  case None
  with assms show ?thesis by (auto simp: consistent_dead owners_def)
next
  case (Some c)
  from assms have "h \<in> owners (handles s) p" by (simp add: owners_mem)
  moreover from assms have "finite (owners (handles s) p)"
    by (simp add: consistent_def finite_owners)
  ultimately have "0 < card (owners (handles s) p)" by (auto simp: card_gt_0_iff)
  then obtain n where "card (owners (handles s) p) = Suc n" by (cases "card (owners (handles s) p)") auto
  with Some assms that show ?thesis by (auto simp: consistent_live)
qed


lemma preservedI:
  "consistent p s1 \<Longrightarrow> (acquired s p \<Longrightarrow> acquired s1 p) \<Longrightarrow>
   (heap s p = None \<Longrightarrow> heap s1 p = None) \<Longrightarrow>
   (heap s1 p = None \<Longrightarrow> heap s p = None \<or> owners (handles s) p \<noteq> {}) \<Longrightarrow>
   preserved p s (Inr s1)"
  by (simp add: preserved_def)

text \<open>Writing null to a handle that does not reference the object, or ending its lifetime.\<close>

lemma consistent_null:
  assumes "consistent p s" and "handles s h \<noteq> Some (Some p)"
  shows "consistent p (s\<lparr>handles := (handles s)(h \<mapsto> None)\<rparr>)"
    and "consistent p (s\<lparr>handles := (handles s)(h := None)\<rparr>)"
  using assms
  by (cases "heap s p";
      simp add: consistent_live consistent_dead refers_only_upd refers_only_del
        owners_remove_other destroyed_def acquired_def)+

text \<open>A handle that did not reference the object now does, and the counter is one more.\<close>

lemma consistent_acquire:
  assumes "consistent p s" and "heap s p = Some c" and "handles s h \<noteq> Some (Some p)"
    and "card (owners (handles s) p) < 2 ^ 32 - 1"
    and "heap s1 = (heap s)(p \<mapsto> c + 1)" and "handles s1 = (handles s)(h \<mapsto> Some p)"
    and "trace s1 = Retained p # trace s"
  shows "consistent p s1"
proof -
  from assms have "unat c = card (owners (handles s) p)" and fin: "finite (dom (handles s))"
    and "refers_only p (handles s)" and "destroyed s p = 0"
    by (simp_all add: consistent_live)
  moreover from this assms have "unat (c + 1) = Suc (unat c)" by (simp add: unat_succ)
  moreover have "heap s1 p = Some (c + 1)" using assms by simp
  ultimately show ?thesis using assms
    by (simp add: consistent_live card_owners_insert refers_only_upd destroyed_def acquired_def)
qed

text \<open>
  A handle that referenced the object no longer does (or is gone), and the counter is
  one less; the object is deleted when the counter reaches zero.
\<close>

lemma consistent_drop:
  assumes "consistent p s" and "heap s p = Some c" and "handles s h = Some (Some p)"
    and "handles s1 = (handles s)(h \<mapsto> None) \<or> handles s1 = (handles s)(h := None)"
    and "c - 1 = 0 \<longrightarrow> heap s1 = (heap s)(p := None) \<and> trace s1 = Deleted p # Released p # trace s"
    and "c - 1 \<noteq> 0 \<longrightarrow> heap s1 = (heap s)(p \<mapsto> c - 1) \<and> trace s1 = Released p # trace s"
  shows "consistent p s1"
proof -
  from assms(1,3) obtain c0 n where "heap s p = Some c0" and "unat c0 = Suc n"
    and card: "card (owners (handles s) p) = Suc n"
    by (rule consistent_owner_live)
  with assms have c: "unat c = Suc n" by simp
  from assms have fin: "finite (dom (handles s))" and ref: "refers_only p (handles s)"
    and des: "destroyed s p = 0" and acq: "acquired s p"
    using card by (auto simp add: consistent_live)
  have own: "owners (handles s1) p = owners (handles s) p - {h}"
    using assms(4) by auto
  have fin1: "finite (dom (handles s1))" using assms(4) fin by auto
  have ref1: "refers_only p (handles s1)"
    using assms(4) ref by (auto simp: refers_only_upd refers_only_del)
  have card1: "card (owners (handles s1) p) = n"
    using card_owners_remove [OF fin assms(3)] card own by simp
  show ?thesis
  proof (cases "n = 0")
    case True
    with pred_zero_iff [OF c] have "c - 1 = 0" by blast
    with assms have "heap s1 p = None" and "trace s1 = Deleted p # Released p # trace s"
      by simp_all
    moreover from True card1 fin1 have "owners (handles s1) p = {}"
      by (simp add: finite_owners)
    ultimately show ?thesis using fin1 ref1 des acq
      by (simp add: consistent_dead destroyed_def acquired_def)
  next
    case False
    with pred_zero_iff [OF c] have "c - 1 \<noteq> 0" by blast
    with assms have "heap s1 p = Some (c - 1)" and "trace s1 = Released p # trace s"
      by simp_all
    moreover from False card1 have "owners (handles s1) p \<noteq> {}" by auto
    moreover from c have "unat (c - 1) = n" by (rule unat_pred)
    ultimately show ?thesis using fin1 ref1 des acq card1
      by (simp add: consistent_live destroyed_def acquired_def)
  qed
qed


text \<open>The reference moves from the handle \<open>S\<close> to the handle \<open>h\<close>; the counter stays.\<close>

lemma consistent_transfer:
  assumes "consistent p s" and "handles s S = Some (Some p)"
    and "handles s h \<noteq> Some (Some p)"
    and "handles s1 = (handles s)(h \<mapsto> Some p, S \<mapsto> None)"
    and "heap s1 = heap s" and "trace s1 = trace s"
  shows "consistent p s1" and "owners (handles s1) p \<noteq> {}"
proof -
  from assms(1,2) obtain c n where live: "heap s p = Some c" and "unat c = Suc n"
    and card: "card (owners (handles s) p) = Suc n"
    by (rule consistent_owner_live)
  from assms have neq: "h \<noteq> S" by auto
  from assms live have fin: "finite (dom (handles s))" and ref: "refers_only p (handles s)"
    by (simp_all add: consistent_live)
  have own: "owners (handles s1) p = insert h (owners (handles s) p - {S})"
    using assms(4) neq by auto
  have "h \<notin> owners (handles s) p - {S}" using assms(3) by (simp add: owners_mem)
  moreover have "finite (owners (handles s) p - {S})" using fin by (simp add: finite_owners)
  ultimately have "card (owners (handles s1) p) = Suc (card (owners (handles s) p - {S}))"
    using own by simp
  with card_owners_remove [OF fin assms(2)]
  have "card (owners (handles s1) p) = card (owners (handles s) p)" by simp
  moreover have "finite (dom (handles s1))" using assms(4) fin by simp
  moreover have "refers_only p (handles s1)"
    using assms(4) ref by (simp add: refers_only_upd)
  moreover show "owners (handles s1) p \<noteq> {}" using own by simp
  moreover have "owners (handles s) p \<noteq> {}" using card by auto
  moreover have "heap s1 p = Some c" using assms(5) live by simp
  moreover have "destroyed s1 p = destroyed s p" and "acquired s1 p = acquired s p"
    using assms(6) by (simp_all add: destroyed_def acquired_def)
  moreover from assms(1) live have "unat c = card (owners (handles s) p)"
    and "destroyed s p = 0" and "acquired s p \<longleftrightarrow> owners (handles s) p \<noteq> {}"
    by (simp_all add: consistent_live)
  ultimately show "consistent p s1"
    by (simp add: consistent_live)
qed

subsection \<open>Every operation keeps the invariant\<close>

lemma preserved_ctor_default:
  assumes "consistent p s"
  shows "preserved p s (ctor_default h s)"
proof (cases "handles s h")
  case None
  then have "ctor_default h s = Inr (s\<lparr>handles := (handles s)(h \<mapsto> None)\<rparr>)"
    by (simp add: ctor_default_def emplace_def)
  moreover from assms None have "consistent p (s\<lparr>handles := (handles s)(h \<mapsto> None)\<rparr>)"
    by (simp add: consistent_null)
  ultimately show ?thesis by (simp add: preserved_def acquired_def)
next
  case (Some obj)
  then show ?thesis by (simp add: ctor_default_def emplace_def preserved_def)
qed

lemma preserved_ctor_raw:
  assumes "consistent p s" and "obj = None \<or> obj = Some p \<and> heap s p \<noteq> None"
    and "card (owners (handles s) p) < 2 ^ 32 - 1"
  shows "preserved p s (ctor_raw h obj s)"
proof (cases "handles s h")
  case (Some x)
  then show ?thesis by (simp add: ctor_raw_def emplace_def preserved_def)
next
  case fresh: None
  show ?thesis
  proof (cases obj)
    case None
    with fresh have "ctor_raw h obj s = ctor_default h s"
      by (simp add: ctor_raw_def ctor_default_def emplace_def retain_def)
    with assms show ?thesis by (simp add: preserved_ctor_default)
  next
    case (Some q)
    with assms have obj: "obj = Some p" by simp
    show ?thesis
    proof (cases "heap s p")
      case None
      with assms(2) obj show ?thesis by simp
    next
      case (Some c)
      define s1 where "s1 = s\<lparr>heap := (heap s)(p \<mapsto> c + 1),
        handles := (handles s)(h \<mapsto> Some p), trace := Retained p # trace s\<rparr>"
      from fresh obj Some have run: "ctor_raw h obj s = Inr s1"
        by (simp add: ctor_raw_def emplace_def retain_def IntrusiveRefCntPtrInfo_retain_def
            Retain_def s1_def)
      have "consistent p s1"
        using assms(1) Some _ assms(3)
        by (rule consistent_acquire) (simp_all add: s1_def fresh)
      then have "preserved p s (Inr s1)"
        by (rule preservedI) (simp_all add: s1_def acquired_def Some)
      with run show ?thesis by simp
    qed
  qed
qed

lemma ctor_copy_raw: "handles s S = Some obj \<Longrightarrow> ctor_copy h S s = ctor_raw h obj s"
  by (simp add: ctor_copy_def ctor_raw_def)

lemma ctor_copy_convert_eq: "ctor_copy_convert h S s = ctor_copy h S s"
  by (simp add: ctor_copy_convert_def ctor_copy_def get_def)

lemma ctor_move_convert_eq: "ctor_move_convert h S s = ctor_move h S s"
  by (simp add: ctor_move_convert_def ctor_move_def get_def)

lemma preserved_ctor_copy:
  assumes "consistent p s" and "card (owners (handles s) p) < 2 ^ 32 - 1"
  shows "preserved p s (ctor_copy h S s)"
proof (cases "handles s S")
  case None
  then show ?thesis by (simp add: ctor_copy_def preserved_def)
next
  case (Some obj)
  with assms have "obj = None \<or> obj = Some p"
    by (auto simp: consistent_def dest: refers_only_cases)
  moreover have "heap s p \<noteq> None" if "obj = Some p"
    using assms(1) Some that by (auto elim: consistent_owner_live)
  ultimately have "obj = None \<or> obj = Some p \<and> heap s p \<noteq> None" by iprover
  with assms Some show ?thesis by (simp add: ctor_copy_raw preserved_ctor_raw)
qed

lemma preserved_ctor_move:
  assumes "consistent p s"
  shows "preserved p s (ctor_move h S s)"
proof (cases "handles s S")
  case None
  then show ?thesis by (simp add: ctor_move_def preserved_def)
next
  case (Some obj)
  show ?thesis
  proof (cases "handles s h")
    case (Some x)
    with \<open>handles s S = Some obj\<close> show ?thesis
      by (simp add: ctor_move_def emplace_def preserved_def)
  next
    case fresh: None
    define s1 where "s1 = s\<lparr>handles := (handles s)(h \<mapsto> obj, S \<mapsto> None)\<rparr>"
    from fresh Some have run: "ctor_move h S s = Inr s1"
      by (simp add: ctor_move_def emplace_def s1_def)
    from assms Some have "obj = None \<or> obj = Some p"
      by (auto simp: consistent_def dest: refers_only_cases)
    then have "consistent p s1"
    proof
      assume null: "obj = None"
      from assms fresh have "consistent p (s\<lparr>handles := (handles s)(h \<mapsto> None)\<rparr>)"
        by (simp add: consistent_null)
      then have "consistent p (s\<lparr>handles := (handles s)(h \<mapsto> None)\<rparr>
        \<lparr>handles := (handles (s\<lparr>handles := (handles s)(h \<mapsto> None)\<rparr>))(S \<mapsto> None)\<rparr>)"
        by (rule consistent_null) (simp add: Some null)
      with null show ?thesis by (simp add: s1_def)
    next
      assume "obj = Some p"
      with assms Some fresh show ?thesis
        by - (rule consistent_transfer(1) [of p s S h], simp_all add: s1_def)
    qed
    then have "preserved p s (Inr s1)"
      by (rule preservedI) (simp_all add: s1_def acquired_def)
    with run show ?thesis by simp
  qed
qed

lemma preserved_swap:
  assumes "consistent p s"
  shows "preserved p s (swap a b s)"
proof (cases "handles s b")
  case None
  then show ?thesis by (simp add: swap_def preserved_def)
next
  case b: (Some ob)
  show ?thesis
  proof (cases "handles s a")
    case None
    with b show ?thesis by (simp add: swap_def preserved_def)
  next
    case a: (Some oa)
    define s1 where "s1 = s\<lparr>handles := (handles s)(b \<mapsto> oa, a \<mapsto> ob)\<rparr>"
    from a b have run: "swap a b s = Inr s1"
      by (simp add: swap_def s1_def)
    from assms a b have cases: "oa = None \<or> oa = Some p" "ob = None \<or> ob = Some p"
      by (auto simp: consistent_def dest: refers_only_cases)
    have "consistent p s1"
    proof (cases "oa = ob")
      case True
      with a b have "(handles s)(b \<mapsto> oa, a \<mapsto> ob) = handles s"
        by (simp add: fun_upd_idem)
      with assms show ?thesis by (simp add: s1_def)
    next
      case False
      with cases consider "oa = Some p" "ob = None" | "oa = None" "ob = Some p" by auto
      then show ?thesis
      proof cases
        case 1
        with assms a b show ?thesis
          by - (rule consistent_transfer(1) [of p s a b], simp_all add: s1_def)
      next
        case 2
        with a b have "a \<noteq> b" by auto
        with 2 assms a b show ?thesis
          by - (rule consistent_transfer(1) [of p s b a], simp_all add: s1_def fun_upd_twist)
      qed
    qed
    then have "preserved p s (Inr s1)"
      by (rule preservedI) (simp_all add: s1_def acquired_def)
    with run show ?thesis by simp
  qed
qed

text \<open>\<^verbatim>\<open>release()\<close> followed by writing null to the handle or by the end of its lifetime.\<close>

lemma preserved_release_then:
  assumes "consistent p s"
    and "fin = (\<lambda>s1. Inr (s1\<lparr>handles := (handles s1)(h \<mapsto> None)\<rparr>)) \<or>
         fin = (\<lambda>s1. Inr (s1\<lparr>handles := (handles s1)(h := None)\<rparr>))"
  shows "preserved p s (then_do (release asserts h s) fin)"
proof (cases "handles s h")
  case None
  then show ?thesis by (simp add: release_def preserved_def)
next
  case (Some obj)
  with assms have "obj = None \<or> obj = Some p"
    by (auto simp: consistent_def dest: refers_only_cases)
  then show ?thesis
  proof
    assume null: "obj = None"
    with Some have "release asserts h s = Inr s" by (simp add: release_def)
    moreover from assms(1) Some null
    have "consistent p (s\<lparr>handles := (handles s)(h \<mapsto> None)\<rparr>)"
      and "consistent p (s\<lparr>handles := (handles s)(h := None)\<rparr>)"
      by (simp_all add: consistent_null)
    ultimately show ?thesis using assms(2)
      by (auto simp: preserved_def acquired_def)
  next
    assume obj: "obj = Some p"
    with assms(1) Some obtain c n where live: "heap s p = Some c" and c: "unat c = Suc n"
      and card: "card (owners (handles s) p) = Suc n"
      by (auto elim: consistent_owner_live)
    from c have pos: "0 < c" by (rule unat_pos)
    define s0 where "s0 = (if c - 1 = 0
      then s\<lparr>heap := (heap s)(p := None), trace := Deleted p # Released p # trace s\<rparr>
      else s\<lparr>heap := (heap s)(p \<mapsto> c - 1), trace := Released p # trace s\<rparr>)"
    from Some obj live pos have rel: "release asserts h s = Inr s0"
      by (simp add: release_def IntrusiveRefCntPtrInfo_release_def Release_def s0_def)
    obtain s1 where fin: "fin s0 = Inr s1"
      and h1: "handles s1 = (handles s)(h \<mapsto> None) \<or> handles s1 = (handles s)(h := None)"
      and heap1: "heap s1 = heap s0" and trace1: "trace s1 = trace s0"
      using assms(2) by (auto simp: s0_def)
    have "consistent p s1"
      using assms(1) live _ h1
      by (rule consistent_drop) (simp_all add: Some obj heap1 trace1 s0_def)
    moreover have "owners (handles s) p \<noteq> {}" using card by auto
    ultimately have "preserved p s (Inr s1)"
      by (intro preservedI) (auto simp add: heap1 trace1 s0_def acquired_def live)
    with rel fin show ?thesis by simp
  qed
qed

lemma preserved_reset: "consistent p s \<Longrightarrow> preserved p s (reset asserts h s)"
  unfolding reset_def by (rule preserved_release_then) simp_all

lemma preserved_dtor: "consistent p s \<Longrightarrow> preserved p s (dtor asserts h s)"
  unfolding dtor_def by (rule preserved_release_then) simp_all

lemma then_do_eq_Inr: "(then_do r f = Inr s2) = (\<exists>s1. r = Inr s1 \<and> f s1 = Inr s2)"
  by (cases r) simp_all

lemma emplace_Inr:
  "emplace h obj s = Inr s1 \<Longrightarrow>
   handles s h = None \<and> s1 = s\<lparr>handles := (handles s)(h \<mapsto> obj)\<rparr>"
  by (simp add: emplace_def split: if_splits)

lemma retain_handles: "retain h s = Inr s1 \<Longrightarrow> handles s1 = handles s"
  by (auto simp: retain_def IntrusiveRefCntPtrInfo_retain_def Retain_def split: option.splits)

lemma ctor_copy_owner:
  assumes "ctor_copy h S s = Inr s1" and "owners (handles s1) p \<noteq> {}"
  shows "owners (handles s) p \<noteq> {}"
proof -
  from assms(1) obtain obj s0 where S: "handles s S = Some obj"
    and "emplace h obj s = Inr s0" and "retain h s0 = Inr s1"
    by (auto simp: ctor_copy_def then_do_eq_Inr split: option.splits)
  then have "handles s1 = (handles s)(h \<mapsto> obj)"
    by (auto dest!: emplace_Inr retain_handles)
  with assms(2) S show ?thesis
    by (cases "obj = Some p") (auto simp: owners_mem)
qed

lemma ctor_move_owner:
  assumes "ctor_move h S s = Inr s1" and "owners (handles s1) p \<noteq> {}"
  shows "owners (handles s) p \<noteq> {}"
proof -
  from assms(1) obtain obj s0 where S: "handles s S = Some obj"
    and "emplace h obj s = Inr s0" and "s1 = s0\<lparr>handles := (handles s0)(S \<mapsto> None)\<rparr>"
    by (auto simp: ctor_move_def then_do_eq_Inr split: option.splits)
  then have "handles s1 = (handles s)(h \<mapsto> obj, S \<mapsto> None)"
    by (auto dest!: emplace_Inr)
  with assms(2) S show ?thesis
    by (cases "obj = Some p") (auto simp: owners_mem)
qed

lemma swap_owner:
  assumes "swap a b s = Inr s1" and "owners (handles s1) p \<noteq> {}"
  shows "owners (handles s) p \<noteq> {}"
proof -
  from assms(1) obtain oa ob where "handles s a = Some oa" and "handles s b = Some ob"
    and "handles s1 = (handles s)(b \<mapsto> oa, a \<mapsto> ob)"
    by (auto simp: swap_def Let_def split: option.splits)
  with assms(2) show ?thesis
    by (cases "oa = Some p"; cases "ob = Some p") (auto simp: owners_mem)
qed

lemma preserved_then:
  assumes "preserved p s r"
    and "\<And>s1. r = Inr s1 \<Longrightarrow> preserved p s1 (f s1)"
    and "\<And>s1. r = Inr s1 \<Longrightarrow> owners (handles s1) p \<noteq> {} \<Longrightarrow> owners (handles s) p \<noteq> {}"
  shows "preserved p s (then_do r f)"
proof (cases r)
  case (Inl e)
  with assms(1) show ?thesis by simp
next
  case (Inr s1)
  from assms(1) Inr have 1: "preserved p s (Inr s1)" by simp
  from Inr have 2: "preserved p s1 (f s1)" by (rule assms(2))
  from Inr have 3: "owners (handles s1) p \<noteq> {} \<Longrightarrow> owners (handles s) p \<noteq> {}"
    by (rule assms(3))
  show ?thesis
  proof (cases "f s1")
    case (Inl e)
    with 2 Inr show ?thesis by (simp add: preserved_def)
  next
    case s2: (Inr s2)
    from 1 have a: "acquired s p \<Longrightarrow> acquired s1 p" "heap s p = None \<Longrightarrow> heap s1 p = None"
      "heap s1 p = None \<Longrightarrow> heap s p = None \<or> owners (handles s) p \<noteq> {}"
      by (simp_all add: preserved_def)
    from 2 s2 have b: "consistent p s2" "acquired s1 p \<Longrightarrow> acquired s2 p"
      "heap s1 p = None \<Longrightarrow> heap s2 p = None"
      "heap s2 p = None \<Longrightarrow> heap s1 p = None \<or> owners (handles s1) p \<noteq> {}"
      by (simp_all add: preserved_def)
    have "preserved p s (Inr s2)"
    proof (rule preservedI)
      show "consistent p s2" by (rule b)
      show "acquired s2 p" if "acquired s p" using that a(1) b(2) by simp
      show "heap s2 p = None" if "heap s p = None" using that a(2) b(3) by simp
      show "heap s p = None \<or> owners (handles s) p \<noteq> {}" if "heap s2 p = None"
      proof -
        from that b(4) consider "heap s1 p = None" | "owners (handles s1) p \<noteq> {}"
          by iprover
        then show ?thesis
        proof cases
          case 1
          then show ?thesis by (rule a(3))
        next
          case 2
          then have "owners (handles s) p \<noteq> {}" by (rule 3)
          then show ?thesis ..
        qed
      qed
    qed
    with Inr s2 show ?thesis by simp
  qed
qed

lemma preserved_assign:
  assumes "consistent p s" and "card (owners (handles s) p) < 2 ^ 32 - 1"
  shows "preserved p s (assign asserts a b s)"
  unfolding assign_def operator_assign_def
proof (rule preserved_then)
  show "preserved p s (then_do (ctor_copy Param b s) (swap a Param))"
  proof (rule preserved_then)
    show "preserved p s (ctor_copy Param b s)"
      using assms by (rule preserved_ctor_copy)
  next
    fix s1 assume "ctor_copy Param b s = Inr s1"
    with preserved_ctor_copy [OF assms, of Param b] have "consistent p s1"
      by (simp add: preserved_def)
    then show "preserved p s1 (swap a Param s1)" by (rule preserved_swap)
  next
    fix s1 assume "ctor_copy Param b s = Inr s1" and "owners (handles s1) p \<noteq> {}"
    then show "owners (handles s) p \<noteq> {}" by (rule ctor_copy_owner)
  qed
next
  fix s2 assume run: "then_do (ctor_copy Param b s) (swap a Param) = Inr s2"
  then obtain s1 where 1: "ctor_copy Param b s = Inr s1" and 2: "swap a Param s1 = Inr s2"
    by (auto simp: then_do_eq_Inr)
  from preserved_ctor_copy [OF assms, of Param b] 1 have "consistent p s1"
    by (simp add: preserved_def)
  with 2 preserved_swap [of p s1 a Param] have "consistent p s2"
    by (simp add: preserved_def)
  then show "preserved p s2 (dtor asserts Param s2)" by (rule preserved_dtor)
  assume "owners (handles s2) p \<noteq> {}"
  with 2 have "owners (handles s1) p \<noteq> {}" by (rule swap_owner)
  with 1 show "owners (handles s) p \<noteq> {}" by (rule ctor_copy_owner)
qed

lemma preserved_assign_move:
  assumes "consistent p s"
  shows "preserved p s (assign_move asserts a b s)"
  unfolding assign_move_def operator_assign_def
proof (rule preserved_then)
  show "preserved p s (then_do (ctor_move Param b s) (swap a Param))"
  proof (rule preserved_then)
    show "preserved p s (ctor_move Param b s)"
      using assms by (rule preserved_ctor_move)
  next
    fix s1 assume "ctor_move Param b s = Inr s1"
    with preserved_ctor_move [OF assms, of Param b] have "consistent p s1"
      by (simp add: preserved_def)
    then show "preserved p s1 (swap a Param s1)" by (rule preserved_swap)
  next
    fix s1 assume "ctor_move Param b s = Inr s1" and "owners (handles s1) p \<noteq> {}"
    then show "owners (handles s) p \<noteq> {}" by (rule ctor_move_owner)
  qed
next
  fix s2 assume run: "then_do (ctor_move Param b s) (swap a Param) = Inr s2"
  then obtain s1 where 1: "ctor_move Param b s = Inr s1" and 2: "swap a Param s1 = Inr s2"
    by (auto simp: then_do_eq_Inr)
  from preserved_ctor_move [OF assms, of Param b] 1 have "consistent p s1"
    by (simp add: preserved_def)
  with 2 preserved_swap [of p s1 a Param] have "consistent p s2"
    by (simp add: preserved_def)
  then show "preserved p s2 (dtor asserts Param s2)" by (rule preserved_dtor)
  assume "owners (handles s2) p \<noteq> {}"
  with 2 have "owners (handles s1) p \<noteq> {}" by (rule swap_owner)
  with 1 show "owners (handles s) p \<noteq> {}" by (rule ctor_move_owner)
qed

lemma preserved_exec:
  assumes "consistent p s" and "through_handles p c"
    and "card (owners (handles s) p) < 2 ^ 32 - 1"
    and "from_raw p c \<longrightarrow> heap s p \<noteq> None"
  shows "preserved p s (exec asserts c s)"
proof (cases c)
  case (ConstructRaw h obj)
  with assms(2,4) have "obj = None \<or> obj = Some p \<and> heap s p \<noteq> None" by auto
  with assms(1) have "preserved p s (ctor_raw h obj s)"
    using assms(3) by (rule preserved_ctor_raw)
  with ConstructRaw show ?thesis by simp
qed (insert assms, simp_all add: preserved_ctor_default preserved_ctor_copy
      preserved_ctor_move preserved_assign preserved_assign_move preserved_swap
      preserved_reset preserved_dtor ctor_copy_convert_eq ctor_move_convert_eq)

subsection \<open>Programs\<close>

lemma consistent_start: "consistent p (start p)"
  by (simp add: start_def RefCountedBase_def empty_state_def consistent_def refers_only_def
      destroyed_def acquired_def)

lemma consistent_destroyed:
  assumes "consistent p s"
  shows "destroyed s p = (if acquired s p \<and> owners (handles s) p = {} then 1 else 0)"
    and "(heap s p = None) = (destroyed s p = 1)"
  using assms by (cases "heap s p"; simp add: consistent_live consistent_dead)+

lemma retain_trace:
  "retain h s = Inr s1 \<Longrightarrow> destroyed s1 p = destroyed s p"
  by (auto simp: retain_def IntrusiveRefCntPtrInfo_retain_def Retain_def destroyed_def
      split: option.splits)

lemma destroyed_handles [simp]: "destroyed (s\<lparr>handles := m\<rparr>) p = destroyed s p"
  by (simp add: destroyed_def)

lemma exec_no_release:
  assumes "\<not> releases c" and "exec asserts c s = Inr s1"
  shows "destroyed s1 p = destroyed s p"
  using assms
  by (cases c)
    (auto simp: ctor_default_def ctor_raw_def ctor_copy_def ctor_copy_convert_def
      ctor_move_def ctor_move_convert_def swap_def resetWithoutRelease_def get_def Let_def
      then_do_eq_Inr
      split: option.splits dest!: emplace_Inr retain_trace [where p = p])

lemma run_append: "run asserts (cs @ ds) s = then_do (run asserts cs s) (run asserts ds)"
proof (induction cs arbitrary: s)
  case Nil
  show ?case by simp
next
  case (Cons c cs)
  then show ?case by (cases "exec asserts c s") simp_all
qed

lemma ctor_raw_dead:
  assumes "heap s p = None"
  shows "fault_of (ctor_raw h (Some p) s) = Some BadHandle \<or>
    fault_of (ctor_raw h (Some p) s) = Some DeadObject"
  using assms
  by (simp add: ctor_raw_def emplace_def retain_def IntrusiveRefCntPtrInfo_retain_def
      Retain_def fault_of_def)

lemma exec_returns_preserved:
  assumes "consistent p s" and "through_handles p c"
    and "card (owners (handles s) p) < 2 ^ 32 - 1"
    and "exec asserts c s = Inr s1"
  shows "preserved p s (Inr s1)"
proof (cases "from_raw p c \<and> heap s p = None")
  case True
  then obtain h where "c = ConstructRaw h (Some p)" by (cases c) auto
  with True assms(4) ctor_raw_dead [of s p h] show ?thesis
    by (simp add: fault_of_def)
next
  case False
  then have "from_raw p c \<longrightarrow> heap s p \<noteq> None" by simp
  with assms(1,2,3) have "preserved p s (exec asserts c s)" by (rule preserved_exec)
  with assms(4) show ?thesis by simp
qed

lemma run_reaches:
  assumes "list_all (through_handles p) (cs @ ds)"
    and "within_capacity asserts p (cs @ ds) s"
    and "consistent p s"
    and "run asserts cs s = Inr s1"
  shows "consistent p s1 \<and> within_capacity asserts p ds s1"
  using assms
proof (induction cs arbitrary: s)
  case Nil
  then show ?case by simp
next
  case (Cons c cs)
  from Cons.prems(4) obtain s0 where c: "exec asserts c s = Inr s0"
    and cs: "run asserts cs s0 = Inr s1"
    by (auto simp: then_do_eq_Inr)
  from Cons.prems(1,2,3) c have "preserved p s (Inr s0)"
    by (intro exec_returns_preserved [of p s c asserts]) simp_all
  then have "consistent p s0" by (simp add: preserved_def)
  moreover from Cons.prems(2) c have "within_capacity asserts p (cs @ ds) s0" by simp
  moreover from Cons.prems(1) have "list_all (through_handles p) (cs @ ds)" by simp
  ultimately show ?case using cs by (intro Cons.IH)
qed

text \<open>
  Claim C1, as amended. Take a program of handle operations on the single object at
  \<open>p\<close>, started with the new object (counter \<open>0\<close>) and no handle, in which fewer
  than \<open>2^32 - 1\<close> handles reference \<open>p\<close> before every operation. Let the program
  have returned up to some point, in state \<open>s\<close>, and let \<open>c\<close> be its next operation.

  If \<open>c\<close> returns, in state \<open>s1\<close>: the object has been deleted once more than
  before if \<open>c\<close> has taken the handles that reference \<open>p\<close> from some to none, and
  as often as before otherwise; it has been deleted once if it has been retained and
  no handle references it now, and never otherwise; it is gone from the heap exactly
  when it has been deleted once; and an operation that deletes it is one that reaches
  \<^verbatim>\<open>release()\<close>: the destruction of a handle, \<^verbatim>\<open>reset\<close>, or an assignment
  (where the parameter is destroyed).

  If \<open>c\<close> does not return, the fault is the client's use of a handle outside its
  lifetime, or \<open>c\<close> constructs a handle from the raw pointer \<open>p\<close> after the object
  was deleted. The assertion of \<^verbatim>\<open>Release\<close> never fails, and no operation on
  handles touches the deleted object.
\<close>

theorem destroyed_at_last_release:
  assumes "list_all (through_handles p) (cs @ [c])"
    and "within_capacity asserts p (cs @ [c]) (start p)"
    and "run asserts cs (start p) = Inr s"
  shows "case exec asserts c s of
           Inl (f, s2) \<Rightarrow>
             f = BadHandle \<or> f = DeadObject \<and> from_raw p c \<and> heap s p = None
         | Inr s1 \<Rightarrow>
             destroyed s1 p =
               destroyed s p +
               (if owners (handles s) p \<noteq> {} \<and> owners (handles s1) p = {} then 1 else 0) \<and>
             destroyed s1 p = (if acquired s1 p \<and> owners (handles s1) p = {} then 1 else 0) \<and>
             (heap s1 p = None) = (destroyed s1 p = 1) \<and>
             (destroyed s1 p \<noteq> destroyed s p \<longrightarrow> releases c)"
proof (cases "from_raw p c \<and> heap s p = None")
  case True
  then obtain h where c: "c = ConstructRaw h (Some p)" by (cases c) auto
  from True ctor_raw_dead [of s p h] show ?thesis
    by (auto simp: c fault_of_def split: sum.splits)
next
  case False
  from assms consistent_start [of p]
  have inv: "consistent p s" and "within_capacity asserts p [c] s"
    using run_reaches [of p cs "[c]" asserts "start p" s] by simp_all
  then have cap: "card (owners (handles s) p) < 2 ^ 32 - 1" by simp
  from assms(1) have "through_handles p c" by simp
  with inv have pres: "preserved p s (exec asserts c s)"
    using cap False by (intro preserved_exec) simp_all
  show ?thesis
  proof (cases "exec asserts c s")
    case (Inl e)
    with pres show ?thesis by (cases e) (simp add: preserved_def)
  next
    case (Inr s1)
    with pres have inv1: "consistent p s1" and acq: "acquired s p \<Longrightarrow> acquired s1 p"
      and dead: "heap s p = None \<Longrightarrow> heap s1 p = None"
      and last: "heap s1 p = None \<Longrightarrow> heap s p = None \<or> owners (handles s) p \<noteq> {}"
      by (simp_all add: preserved_def)
    have delta: "destroyed s1 p =
        destroyed s p +
        (if owners (handles s) p \<noteq> {} \<and> owners (handles s1) p = {} then 1 else 0)"
    proof (cases "heap s p")
      case None
      with dead have "heap s1 p = None" by simp
      with inv1 have "destroyed s1 p = 1" by (simp add: consistent_dead)
      moreover from inv None have "destroyed s p = 1" and "owners (handles s) p = {}"
        by (simp_all add: consistent_dead)
      ultimately show ?thesis by simp
    next
      case (Some x)
      with inv have 0: "destroyed s p = 0"
        and acq0: "owners (handles s) p \<noteq> {} \<Longrightarrow> acquired s p"
        by (simp_all add: consistent_live)
      show ?thesis
      proof (cases "heap s1 p")
        case None
        with last Some have "owners (handles s) p \<noteq> {}" by simp
        moreover from inv1 None have "destroyed s1 p = 1" and "owners (handles s1) p = {}"
          by (simp_all add: consistent_dead)
        ultimately show ?thesis using 0 by simp
      next
        case live1: (Some y)
        with inv1 have 1: "destroyed s1 p = 0"
          and acq1: "acquired s1 p \<Longrightarrow> owners (handles s1) p \<noteq> {}"
          by (simp_all add: consistent_live)
        have "owners (handles s1) p \<noteq> {}" if "owners (handles s) p \<noteq> {}"
          using that by (intro acq1 acq acq0)
        then have "\<not> (owners (handles s) p \<noteq> {} \<and> owners (handles s1) p = {})"
          by iprover
        with 0 1 show ?thesis by (simp (no_asm_simp))
      qed
    qed
    have closed: "destroyed s1 p = (if acquired s1 p \<and> owners (handles s1) p = {} then 1 else 0)"
      and gone: "(heap s1 p = None) = (destroyed s1 p = 1)"
      using inv1 by (rule consistent_destroyed)+
    have "releases c" if "destroyed s1 p \<noteq> destroyed s p"
      using that exec_no_release [OF _ Inr, of p] by auto
    with delta closed gone show ?thesis unfolding Inr by (simp (no_asm_simp))
  qed
qed

theorem destroyed_at_last_release_witness:
  "list_all (through_handles 7)
     ([ConstructRaw (Var 0) (Some 7), Copy (Var 1) (Var 0), Destroy (Var 0)] @ [Reset (Var 1)]) \<and>
   within_capacity True 7
     ([ConstructRaw (Var 0) (Some 7), Copy (Var 1) (Var 0), Destroy (Var 0)] @ [Reset (Var 1)])
     (start 7) \<and>
   run True [ConstructRaw (Var 0) (Some 7), Copy (Var 1) (Var 0), Destroy (Var 0)] (start 7) =
     Inr \<lparr>heap = [7 \<mapsto> 1], handles = [Var 1 \<mapsto> Some 7], trace = [Released 7, Retained 7, Retained 7]\<rparr> \<and>
   (case exec True (Reset (Var 1))
        \<lparr>heap = [7 \<mapsto> 1], handles = [Var 1 \<mapsto> Some 7], trace = [Released 7, Retained 7, Retained 7]\<rparr> of
      Inl e \<Rightarrow> False
    | Inr s1 \<Rightarrow>
        destroyed s1 7 = 1 \<and> heap s1 7 = None \<and> owners (handles s1) 7 = {} \<and> acquired s1 7)"
  using destroyed_at_last_release [of 7
      "[ConstructRaw (Var 0) (Some 7), Copy (Var 1) (Var 0), Destroy (Var 0)]" "Reset (Var 1)" True
      "\<lparr>heap = [7 \<mapsto> 1], handles = [Var 1 \<mapsto> Some 7], trace = [Released 7, Retained 7, Retained 7]\<rparr>"]
  by (simp add: handle_defs Retain_def Release_def start_def RefCountedBase_def empty_state_def
      destroyed_def acquired_def fun_upd_twist)

subsection \<open>The counter wraps around\<close>

lemma count_list_replicate:
  "count_list (replicate n x) y = (if x = y then n else 0)"
  by (induction n) (auto split: if_splits)

lemma many_copies_Suc:
  "many_copies p (Suc n) = many_copies p n @ [Copy (Var (Suc n)) (Var 0)]"
  by (simp add: many_copies_def)

lemma copy_copied:
  "ctor_copy (Var (Suc n)) (Var 0) (copied p n) = Inr (copied p (Suc n))"
proof -
  have "(\<lambda>h. case h of Var i \<Rightarrow> if i \<le> n then Some (Some p) else None | Param \<Rightarrow> None)
      (Var (Suc n) \<mapsto> Some p) =
    (\<lambda>h. case h of Var i \<Rightarrow> if i \<le> Suc n then Some (Some p) else None | Param \<Rightarrow> None)"
    by (auto simp: fun_eq_iff split: hid.splits)
  then show ?thesis
    by (simp add: copied_def ctor_copy_def emplace_def retain_def
        IntrusiveRefCntPtrInfo_retain_def Retain_def)
qed

lemma run_many_copies: "run asserts (many_copies p n) (start p) = Inr (copied p n)"
proof (induction n)
  case 0
  show ?case
    by (auto simp: many_copies_def copied_def start_def RefCountedBase_def empty_state_def
        ctor_raw_def emplace_def retain_def IntrusiveRefCntPtrInfo_retain_def Retain_def
        fun_eq_iff split: hid.splits)
next
  case (Suc n)
  then show ?case
    by (simp add: many_copies_Suc run_append copy_copied)
qed

lemma through_handles_many_copies: "list_all (through_handles p) (many_copies p n)"
  by (simp add: many_copies_def list_all_iff)

lemma destroy_copied:
  assumes "(of_nat (Suc n) :: 32 word) = 1"
  shows "dtor asserts (Var 0) (copied p n) =
    Inr ((copied p n)\<lparr>heap := Map.empty, handles := (handles (copied p n))(Var 0 := None),
      trace := Deleted p # Released p # trace (copied p n)\<rparr>)"
  using assms
  by (simp add: dtor_def release_def IntrusiveRefCntPtrInfo_release_def Release_def copied_def
      del: of_nat_Suc)

text \<open>
  Without the bound on the number of handles the statement fails. After the handle
  \<open>Var 0\<close> has been copied \<open>2^32\<close> times the counter has wrapped around to \<open>1\<close>;
  the destruction of \<open>Var 0\<close> then deletes the object, and the \<open>2^32\<close> copies,
  \<open>Var 1\<close> among them, still reference it. The program returns in the build that
  checks assertions; the destruction of \<open>Var 1\<close> after it calls \<^verbatim>\<open>Release\<close> on
  the deleted object.
\<close>

theorem destroyed_before_last_release_counterexample:
  "list_all (through_handles 7) (many_copies 7 (2 ^ 32) @ [Destroy (Var 0)]) \<and>
   fault_of (run True (many_copies 7 (2 ^ 32) @ [Destroy (Var 0)]) (start 7)) = None \<and>
   destroyed (state_of (run True (many_copies 7 (2 ^ 32) @ [Destroy (Var 0)]) (start 7))) 7 = 1 \<and>
   Var 1 \<in> owners (handles (state_of
     (run True (many_copies 7 (2 ^ 32) @ [Destroy (Var 0)]) (start 7)))) 7 \<and>
   fault_of (run True (many_copies 7 (2 ^ 32) @ [Destroy (Var 0), Destroy (Var 1)]) (start 7)) =
     Some DeadObject"
proof -
  have "(of_nat (Suc (2 ^ 32)) :: 32 word) = 1" by simp
  then have run: "run True (many_copies 7 (2 ^ 32) @ Destroy (Var 0) # ds) (start 7) =
    run True ds ((copied 7 (2 ^ 32))\<lparr>heap := Map.empty,
      handles := (handles (copied 7 (2 ^ 32)))(Var 0 := None),
      trace := Deleted 7 # Released 7 # trace (copied 7 (2 ^ 32))\<rparr>)" for ds
    by (simp only: run_append run_many_copies then_do_Inr run.simps exec.simps destroy_copied)
  have 0: "destroyed (copied 7 n) 7 = 0" for n
    by (simp add: copied_def destroyed_def count_list_replicate del: replicate.simps)
  have 1: "handles (copied 7 (2 ^ 32)) (Var 1) = Some (Some 7)"
    by (simp add: copied_def)
  have "fault_of (run True (many_copies 7 (2 ^ 32) @ [Destroy (Var 0), Destroy (Var 1)]) (start 7)) =
     Some DeadObject"
    unfolding run using 1
    by (simp add: dtor_def release_def IntrusiveRefCntPtrInfo_release_def Release_def
        fault_of_def)
  with 0 1 show ?thesis
    unfolding run
    by (simp add: through_handles_many_copies fault_of_def state_of_def owners_mem
        destroyed_def)
qed

end
